theory Spec2Isabelle
  imports Main
begin

section \<open>Data model\<close>

text \<open>
  The scanner of \<^verbatim>\<open>package_scanner.py\<close> reads a directory tree and JSON files. The
  tree is a value here: a node is a file, with the outcome of opening and parsing it,
  or a directory, with the flag the operating system answers for \<^verbatim>\<open>os.access(path,
  os.R_OK)\<close> (a directory that is not readable cannot be listed either) and its entries
  in listing order. There are no symbolic links and the tree does not change during a
  scan. A path is the list of its components below the filesystem root, so that the
  tuple \<^verbatim>\<open>Path.parts\<close> of an absolute path is the root followed by that list.
\<close>

type_synonym path = "string list"

text \<open>
  What \<^verbatim>\<open>json.load\<close> returns. An object carries its members in the order of the
  text; the dictionary Python builds from them is \<open>py_dict\<close> below. A number keeps
  its lexeme: the scanner never computes with one.
\<close>

datatype json =
    JNull
  | JBool bool
  | JNum string
  | JStr string
  | JArr "json list"
  | JObj "(string \<times> json) list"

text \<open>
  What \<^verbatim>\<open>open(path, 'r', encoding='utf-8')\<close> followed by \<^verbatim>\<open>json.load\<close> does on a file:
  \<open>NoAccess\<close> raises PermissionError or another OSError, \<open>NotUtf8\<close> raises
  UnicodeDecodeError, \<open>NotJson\<close> raises JSONDecodeError, \<open>Json v\<close> returns \<open>v\<close>.
\<close>

datatype fcontent = NoAccess | NotUtf8 | NotJson | Json json

datatype fsnode = File fcontent | Dir bool "(string \<times> fsnode) list"

text \<open>
  The exceptions that no handler of the scanning functions names. OSError,
  PermissionError and JSONDecodeError are caught where they arise, so they never
  appear as a value.
\<close>

datatype error = AttributeError | TypeError | UnicodeDecodeError

record installed_record =
  version :: json
  path :: path
  parent_project :: json

record dependency_record =
  dep_version :: json
  dependency_type :: string
  project :: json
  dep_path :: path

subsection \<open>Python dictionaries\<close>

text \<open>
  A dictionary is the list of its items in insertion order, with distinct keys.
  \<^verbatim>\<open>d[k] = v\<close> replaces the value of a key that is present, in place, and appends a
  new key; \<^verbatim>\<open>d.update(e)\<close> assigns the items of \<open>e\<close> in order.
\<close>

primrec setitem :: "'k \<Rightarrow> 'v \<Rightarrow> ('k \<times> 'v) list \<Rightarrow> ('k \<times> 'v) list" where
  "setitem k v [] = [(k, v)]"
| "setitem k v (e # d) = (if fst e = k then (k, v) # d else e # setitem k v d)"

definition dict_update :: "('k \<times> 'v) list \<Rightarrow> ('k \<times> 'v) list \<Rightarrow> ('k \<times> 'v) list" where
  "dict_update d e = fold (\<lambda>(k, v). setitem k v) e d"

definition keys :: "('k \<times> 'v) list \<Rightarrow> 'k set" where
  "keys d = fst ` set d"

definition py_dict :: "(string \<times> json) list \<Rightarrow> (string \<times> json) list" where
  "py_dict members = dict_update [] members"

definition dict_get :: "(string \<times> json) list \<Rightarrow> string \<Rightarrow> json \<Rightarrow> json" where
  "dict_get d k dflt = (case map_of d k of None \<Rightarrow> dflt | Some v \<Rightarrow> v)"

subsection \<open>Paths and the filesystem\<close>

fun child :: "fsnode \<Rightarrow> string \<Rightarrow> fsnode option" where
  "child (File c) n = None"
| "child (Dir r es) n = map_of es n"

fun fs_lookup :: "fsnode \<Rightarrow> path \<Rightarrow> fsnode option" where
  "fs_lookup nd [] = Some nd"
| "fs_lookup nd (n # ns) = (case child nd n of None \<Rightarrow> None | Some c \<Rightarrow> fs_lookup c ns)"

text \<open>\<^verbatim>\<open>Path.name\<close>: the last component, empty for the root.\<close>

definition path_name :: "path \<Rightarrow> string" where
  "path_name p = (if p = [] then [] else last p)"

text \<open>\<^verbatim>\<open>Path.parent\<close>: the root is its own parent.\<close>

definition path_parent :: "path \<Rightarrow> path" where
  "path_parent p = butlast p"

text \<open>\<^verbatim>\<open>Path.parts\<close> of an absolute path: the root, then the components.\<close>

definition parts :: "path \<Rightarrow> string list" where
  "parts p = ''/'' # p"

definition startswith :: "string \<Rightarrow> char \<Rightarrow> bool" where
  "startswith s c = (case s of [] \<Rightarrow> False | x # _ \<Rightarrow> x = c)"

text \<open>\<^verbatim>\<open>os.access(path, os.R_OK)\<close>: it answers False for a path that does not exist.\<close>

definition os_access_R :: "fsnode \<Rightarrow> path \<Rightarrow> bool" where
  "os_access_R fs p =
     (case fs_lookup fs p of
        None \<Rightarrow> False
      | Some (File c) \<Rightarrow> c \<noteq> NoAccess
      | Some (Dir r es) \<Rightarrow> r)"

text \<open>Python's \<^verbatim>\<open>s in t\<close> on two strings: \<open>s\<close> occurs in \<open>t\<close>.\<close>

fun str_contains :: "string \<Rightarrow> string \<Rightarrow> bool" where
  "str_contains [] s = (take (length s) [] = s)"
| "str_contains (x # t) s = (take (length s) (x # t) = s \<or> str_contains t s)"

section \<open>The directory classifier\<close>

definition skip_dirs :: "string set" where
  "skip_dirs =
     {''.git'', ''.svn'', ''.hg'', ''__pycache__'',
      ''venv'', ''env'', ''.env'', ''virtualenv'',
      ''.vscode'', ''.idea'', ''dist'', ''build'',
      ''target'', ''bin'', ''obj'', ''.cache'',
      ''Windows'', ''System32'', ''Program Files'',
      ''Applications''}"

definition should_skip_directory :: "fsnode \<Rightarrow> path \<Rightarrow> bool" where
  "should_skip_directory fs p =
     (startswith (path_name p) CHR ''.'' \<and> path_name p \<notin> {''.npm'', ''.node_modules''}
      \<or> path_name p \<in> skip_dirs
      \<or> \<not> os_access_R fs p)"

section \<open>The manifest readers\<close>

text \<open>
  \<^verbatim>\<open>get_package_version\<close>. The handler names JSONDecodeError, PermissionError and
  OSError. \<^verbatim>\<open>package_data.get\<close> exists on a dictionary only: on any other parsed
  value it raises AttributeError, and a file that is not UTF-8 raises
  UnicodeDecodeError in \<^verbatim>\<open>json.load\<close>; neither is handled.
\<close>

definition get_package_version :: "fsnode \<Rightarrow> path \<Rightarrow> error + json" where
  "get_package_version fs package_path =
     (case fs_lookup fs (package_path @ [''package.json'']) of
        None \<Rightarrow> Inr (JStr ''unknown'')
      | Some (Dir r es) \<Rightarrow> Inr (JStr ''unknown'')
      | Some (File NoAccess) \<Rightarrow> Inr (JStr ''unknown'')
      | Some (File NotUtf8) \<Rightarrow> Inl UnicodeDecodeError
      | Some (File NotJson) \<Rightarrow> Inr (JStr ''unknown'')
      | Some (File (Json (JObj members))) \<Rightarrow>
          Inr (dict_get (py_dict members) ''version'' (JStr ''unknown''))
      | Some (File (Json _)) \<Rightarrow> Inl AttributeError)"

definition find_parent_project :: "fsnode \<Rightarrow> path \<Rightarrow> error + json" where
  "find_parent_project fs node_modules_path =
     (let parent_dir = path_parent node_modules_path in
      case fs_lookup fs (parent_dir @ [''package.json'']) of
        None \<Rightarrow> Inr (JStr (path_name parent_dir))
      | Some (Dir r es) \<Rightarrow> Inr (JStr (path_name parent_dir))
      | Some (File NoAccess) \<Rightarrow> Inr (JStr (path_name parent_dir))
      | Some (File NotUtf8) \<Rightarrow> Inl UnicodeDecodeError
      | Some (File NotJson) \<Rightarrow> Inr (JStr (path_name parent_dir))
      | Some (File (Json (JObj members))) \<Rightarrow>
          Inr (dict_get (py_dict members) ''name'' (JStr (path_name parent_dir)))
      | Some (File (Json _)) \<Rightarrow> Inl AttributeError)"

section \<open>The store scanner\<close>

text \<open>
  One matching package directory: the version is looked up first, then the dictionary
  literal evaluates \<^verbatim>\<open>find_parent_project\<close>, then the record is stored under the name.
\<close>

definition record_package ::
  "fsnode \<Rightarrow> path \<Rightarrow> string \<Rightarrow> path \<Rightarrow> (string \<times> installed_record) list
     \<Rightarrow> error + (string \<times> installed_record) list" where
  "record_package fs node_modules_path full_name package_path found =
     (case get_package_version fs package_path of
        Inl e \<Rightarrow> Inl e
      | Inr v \<Rightarrow>
          (case find_parent_project fs node_modules_path of
             Inl e \<Rightarrow> Inl e
           | Inr pp \<Rightarrow>
               Inr (setitem full_name
                      \<lparr>version = v, path = package_path, parent_project = pp\<rparr> found)))"

text \<open>The loop over the children of a scope directory \<^verbatim>\<open>@scope\<close>.\<close>

fun scan_scope ::
  "string set \<Rightarrow> fsnode \<Rightarrow> path \<Rightarrow> string \<Rightarrow> (string \<times> fsnode) list
     \<Rightarrow> (string \<times> installed_record) list \<Rightarrow> error + (string \<times> installed_record) list" where
  "scan_scope T fs nm scope [] found = Inr found"
| "scan_scope T fs nm scope ((n, File c) # es) found = scan_scope T fs nm scope es found"
| "scan_scope T fs nm scope ((n, Dir r cs) # es) found =
     (let full_name = scope @ ''/'' @ n in
      if full_name \<in> T then
        (case record_package fs nm full_name (nm @ [scope, n]) found of
           Inl e \<Rightarrow> Inl e
         | Inr found' \<Rightarrow> scan_scope T fs nm scope es found')
      else scan_scope T fs nm scope es found)"

text \<open>
  The loop over the children of the store. A scope directory that cannot be listed
  raises PermissionError inside the inner \<^verbatim>\<open>try\<close>, which continues with the next child.
\<close>

fun scan_items ::
  "string set \<Rightarrow> fsnode \<Rightarrow> path \<Rightarrow> (string \<times> fsnode) list
     \<Rightarrow> (string \<times> installed_record) list \<Rightarrow> error + (string \<times> installed_record) list" where
  "scan_items T fs nm [] found = Inr found"
| "scan_items T fs nm ((n, File c) # es) found = scan_items T fs nm es found"
| "scan_items T fs nm ((n, Dir r cs) # es) found =
     (if startswith n CHR ''@'' then
        (if \<not> r then scan_items T fs nm es found
         else
           (case scan_scope T fs nm n cs found of
              Inl e \<Rightarrow> Inl e
            | Inr found' \<Rightarrow> scan_items T fs nm es found'))
      else if n \<in> T then
        (case record_package fs nm n (nm @ [n]) found of
           Inl e \<Rightarrow> Inl e
         | Inr found' \<Rightarrow> scan_items T fs nm es found')
      else scan_items T fs nm es found)"

text \<open>
  \<^verbatim>\<open>scan_node_modules\<close>: a path that does not exist gives the empty dictionary; a file
  or an unreadable directory raises an OSError in \<^verbatim>\<open>iterdir\<close>, which the outer handler
  turns into a warning and the empty dictionary.
\<close>

definition scan_node_modules ::
  "string set \<Rightarrow> fsnode \<Rightarrow> path \<Rightarrow> error + (string \<times> installed_record) list" where
  "scan_node_modules T fs node_modules_path =
     (case fs_lookup fs node_modules_path of
        None \<Rightarrow> Inr []
      | Some (File c) \<Rightarrow> Inr []
      | Some (Dir r es) \<Rightarrow> (if \<not> r then Inr [] else scan_items T fs node_modules_path es []))"

section \<open>Dependency extraction\<close>

definition dep_sections :: "string list" where
  "dep_sections = [''dependencies'', ''devDependencies'', ''peerDependencies'',
                   ''optionalDependencies'']"

text \<open>
  \<^verbatim>\<open>section in data\<close>: key membership on a dictionary, element membership on a list,
  substring on a string, TypeError on a number, a boolean or None.
\<close>

fun section_in :: "string \<Rightarrow> json \<Rightarrow> error + bool" where
  "section_in s (JObj members) = Inr (s \<in> keys (py_dict members))"
| "section_in s (JArr xs) = Inr (JStr s \<in> set xs)"
| "section_in s (JStr t) = Inr (str_contains t s)"
| "section_in s _ = Inl TypeError"

text \<open>\<^verbatim>\<open>data[section]\<close>, evaluated only after \<^verbatim>\<open>section in data\<close> was true.\<close>

fun getitem :: "json \<Rightarrow> string \<Rightarrow> error + json" where
  "getitem (JObj members) s = Inr (dict_get (py_dict members) s JNull)"
| "getitem _ s = Inl TypeError"

text \<open>\<^verbatim>\<open>.items()\<close>: a method of dictionaries only.\<close>

fun items :: "json \<Rightarrow> error + (string \<times> json) list" where
  "items (JObj members) = Inr (py_dict members)"
| "items _ = Inl AttributeError"

text \<open>\<^verbatim>\<open>data.get('name', 'unknown')\<close>, reached only when \<open>data\<close> is a dictionary.\<close>

fun project_name :: "json \<Rightarrow> json" where
  "project_name (JObj members) = dict_get (py_dict members) ''name'' (JStr ''unknown'')"
| "project_name _ = JStr ''unknown''"

definition add_dep ::
  "string set \<Rightarrow> json \<Rightarrow> path \<Rightarrow> string \<Rightarrow> string \<times> json
     \<Rightarrow> (string \<times> dependency_record) list \<Rightarrow> (string \<times> dependency_record) list" where
  "add_dep T data package_json_path section = (\<lambda>(pkg_name, v) found.
     if pkg_name \<in> T then
       setitem pkg_name
         \<lparr>dep_version = v, dependency_type = section, project = project_name data,
          dep_path = package_json_path\<rparr> found
     else found)"

fun scan_sections ::
  "string set \<Rightarrow> json \<Rightarrow> path \<Rightarrow> string list \<Rightarrow> (string \<times> dependency_record) list
     \<Rightarrow> error + (string \<times> dependency_record) list" where
  "scan_sections T data pj [] found = Inr found"
| "scan_sections T data pj (section # rest) found =
     (case section_in section data of
        Inl e \<Rightarrow> Inl e
      | Inr False \<Rightarrow> scan_sections T data pj rest found
      | Inr True \<Rightarrow>
          (case getitem data section of
             Inl e \<Rightarrow> Inl e
           | Inr sec \<Rightarrow>
               (case items sec of
                  Inl e \<Rightarrow> Inl e
                | Inr kvs \<Rightarrow>
                    scan_sections T data pj rest (fold (add_dep T data pj section) kvs found))))"

definition scan_package_json ::
  "string set \<Rightarrow> fsnode \<Rightarrow> path \<Rightarrow> error + (string \<times> dependency_record) list" where
  "scan_package_json T fs package_json_path =
     (case fs_lookup fs package_json_path of
        None \<Rightarrow> Inr []
      | Some (Dir r es) \<Rightarrow> Inr []
      | Some (File NoAccess) \<Rightarrow> Inr []
      | Some (File NotUtf8) \<Rightarrow> Inl UnicodeDecodeError
      | Some (File NotJson) \<Rightarrow> Inr []
      | Some (File (Json data)) \<Rightarrow> scan_sections T data package_json_path dep_sections [])"

section \<open>The tree walker\<close>

text \<open>
  The state of one \<^verbatim>\<open>scan_directory_worker\<close>: its two dictionaries, the set
  \<^verbatim>\<open>self.scanned_dirs\<close> of the scanner object, and the exception that ended the loop,
  if any (the handler \<^verbatim>\<open>except Exception\<close> around the loop prints it and the function
  returns what the dictionaries hold).
\<close>

record wstate =
  installed_packages :: "(string \<times> installed_record) list"
  dependency_references :: "(string \<times> dependency_record) list"
  scanned_dirs :: "path set"
  raised :: "error option"

text \<open>\<^verbatim>\<open>'package.json' in files\<close>: the entries of the directory that are not directories.\<close>

fun in_files :: "string \<Rightarrow> (string \<times> fsnode) list \<Rightarrow> bool" where
  "in_files f [] = False"
| "in_files f ((n, File c) # es) = (n = f \<or> in_files f es)"
| "in_files f ((n, Dir r cs) # es) = in_files f es"

text \<open>
  The body of the loop on one directory that \<^verbatim>\<open>os.walk\<close> yields. It returns the state
  and whether the list \<^verbatim>\<open>dirs\<close> is left as it is, so that \<^verbatim>\<open>os.walk\<close> goes on into the
  subdirectories.
\<close>

definition visit :: "string set \<Rightarrow> fsnode \<Rightarrow> path \<Rightarrow> (string \<times> fsnode) list \<Rightarrow> wstate
    \<Rightarrow> wstate \<times> bool" where
  "visit T fs current_path es s =
     (if should_skip_directory fs current_path then (s, False)
      else if current_path \<in> scanned_dirs s then (s, True)
      else
        let s1 = s\<lparr>scanned_dirs := insert current_path (scanned_dirs s)\<rparr> in
        if path_name current_path = ''node_modules'' then
          (case scan_node_modules T fs current_path of
             Inl e \<Rightarrow> (s1\<lparr>raised := Some e\<rparr>, False)
           | Inr found \<Rightarrow>
               (s1\<lparr>installed_packages := dict_update (installed_packages s1) found\<rparr>, False))
        else if in_files ''package.json'' es then
          (case scan_package_json T fs (current_path @ [''package.json'']) of
             Inl e \<Rightarrow> (s1\<lparr>raised := Some e\<rparr>, False)
           | Inr found_deps \<Rightarrow>
               (s1\<lparr>dependency_references := dict_update (dependency_references s1) found_deps\<rparr>,
                \<not> length (parts current_path) > 10))
        else (s1, \<not> length (parts current_path) > 10))"

text \<open>
  \<^verbatim>\<open>os.walk\<close>, top down: a directory that cannot be listed is not yielded (the default
  \<^verbatim>\<open>onerror\<close> ignores the failure), a file is never walked, and after the body the walk
  goes into the subdirectories that \<^verbatim>\<open>dirs\<close> still holds, in order. Once an exception
  has left the loop nothing more is visited.
\<close>

fun walk :: "string set \<Rightarrow> fsnode \<Rightarrow> path \<Rightarrow> fsnode \<Rightarrow> wstate \<Rightarrow> wstate"
  and walk_dirs :: "string set \<Rightarrow> fsnode \<Rightarrow> path \<Rightarrow> (string \<times> fsnode) list \<Rightarrow> wstate \<Rightarrow> wstate"
where
  "walk T fs p (File c) s = s"
| "walk T fs p (Dir r es) s =
     (if raised s \<noteq> None \<or> \<not> r then s
      else case visit T fs p es s of
             (s', descend) \<Rightarrow> if descend \<and> raised s' = None then walk_dirs T fs p es s' else s')"
| "walk_dirs T fs p [] s = s"
| "walk_dirs T fs p ((n, c) # es) s = walk_dirs T fs p es (walk T fs (p @ [n]) c s)"

definition scan_directory_worker :: "string set \<Rightarrow> fsnode \<Rightarrow> path \<Rightarrow> path set \<Rightarrow> wstate" where
  "scan_directory_worker T fs root_path scanned =
     (let s0 = \<lparr>installed_packages = [], dependency_references = [],
                scanned_dirs = scanned, raised = None\<rparr>
      in case fs_lookup fs root_path of None \<Rightarrow> s0 | Some nd \<Rightarrow> walk T fs root_path nd s0)"

section \<open>The scan coordinator\<close>

text \<open>
  \<^verbatim>\<open>scan_computer\<close> with the workers run one after the other in the order of the search
  paths, which is the schedule of a pool of one thread, each result merged when its
  worker is done. The search paths are a parameter: \<^verbatim>\<open>get_search_paths\<close> reads them from
  the environment. The set \<^verbatim>\<open>scanned_dirs\<close> belongs to the scanner object, so each worker
  starts from the set the previous one left.
\<close>

record results =
  res_installed :: "(string \<times> installed_record) list"
  res_dependencies :: "(string \<times> dependency_record) list"

definition merge_result :: "results \<Rightarrow> wstate \<Rightarrow> results" where
  "merge_result res w =
     \<lparr>res_installed = dict_update (res_installed res) (installed_packages w),
      res_dependencies = dict_update (res_dependencies res) (dependency_references w)\<rparr>"

fun run_workers :: "string set \<Rightarrow> fsnode \<Rightarrow> path list \<Rightarrow> results \<times> path set \<Rightarrow> results \<times> path set" where
  "run_workers T fs [] (res, scanned) = (res, scanned)"
| "run_workers T fs (root_path # rest) (res, scanned) =
     (let w = scan_directory_worker T fs root_path scanned
      in run_workers T fs rest (merge_result res w, scanned_dirs w))"

definition scan_computer :: "string set \<Rightarrow> fsnode \<Rightarrow> path list \<Rightarrow> results" where
  "scan_computer T fs search_paths =
     fst (run_workers T fs search_paths (\<lparr>res_installed = [], res_dependencies = []\<rparr>, {}))"

section \<open>Notions for stating the properties\<close>

text \<open>The entries that a dictionary holds for one key.\<close>

definition entries_for :: "'k \<Rightarrow> ('k \<times> 'v) list \<Rightarrow> ('k \<times> 'v) list" where
  "entries_for k d = filter (\<lambda>e. fst e = k) d"

text \<open>The references to one package in the outcome of a manifest scan.\<close>

definition references_to ::
  "string \<Rightarrow> error + (string \<times> dependency_record) list \<Rightarrow> (string \<times> dependency_record) list" where
  "references_to pkg r = (case r of Inl e \<Rightarrow> [] | Inr found \<Rightarrow> entries_for pkg found)"

text \<open>
  The pairs of result dictionaries that some sequence of store scans, manifest scans
  and merges builds from the empty pair.
\<close>

inductive reachable ::
  "string set \<Rightarrow> fsnode
     \<Rightarrow> (string \<times> installed_record) list \<times> (string \<times> dependency_record) list \<Rightarrow> bool"
  for T :: "string set" and fs :: fsnode
where
  start: "reachable T fs ([], [])"
| store: "reachable T fs (inst, deps) \<Longrightarrow> scan_node_modules T fs p = Inr found
    \<Longrightarrow> reachable T fs (dict_update inst found, deps)"
| manifest: "reachable T fs (inst, deps) \<Longrightarrow> scan_package_json T fs p = Inr found
    \<Longrightarrow> reachable T fs (inst, dict_update deps found)"
| merge: "reachable T fs (inst, deps) \<Longrightarrow> reachable T fs (inst', deps')
    \<Longrightarrow> reachable T fs (dict_update inst inst', dict_update deps deps')"

text \<open>
  A directory tree as an operating system presents it: the names in one directory are
  distinct.
\<close>

fun wf_fs :: "fsnode \<Rightarrow> bool" where
  "wf_fs (File c) = True"
| "wf_fs (Dir r es) = (distinct (map fst es) \<and> (\<forall>e\<in>set es. wf_fs (snd e)))"

text \<open>
  The directories from \<open>p\<close> down to \<open>p @ ds\<close>, both included, none of which the
  classifier skips.
\<close>

definition unskipped :: "fsnode \<Rightarrow> path \<Rightarrow> path \<Rightarrow> bool" where
  "unskipped fs p ds = (\<forall>i\<le>length ds. \<not> should_skip_directory fs (p @ take i ds))"




text \<open>Where the records of a walk come from.\<close>

definition in_store :: "path \<Rightarrow> installed_record \<Rightarrow> bool" where
  "in_store q rec =
     ((\<exists>n. path rec = q @ [n]) \<or> (\<exists>sc n. startswith sc CHR ''@'' \<and> path rec = q @ [sc, n]))"

definition attributed :: "wstate \<Rightarrow> wstate \<Rightarrow> bool" where
  "attributed s s' =
     (scanned_dirs s \<subseteq> scanned_dirs s'
      \<and> (\<forall>e\<in>set (installed_packages s'). e \<in> set (installed_packages s)
            \<or> (\<exists>q\<in>scanned_dirs s' - scanned_dirs s. in_store q (snd e)))
      \<and> (\<forall>e\<in>set (dependency_references s'). e \<in> set (dependency_references s)
            \<or> (\<exists>q\<in>scanned_dirs s' - scanned_dirs s. dep_path (snd e) = q @ [''package.json''])))"

section \<open>Example trees\<close>




definition fs_home :: fsnode where
  "fs_home =
     Dir True
       [(''home'', Dir True
          [(''.git'', Dir True []),
           (''.npm'', Dir True []),
           (''locked'', Dir False []),
           (''src'', Dir True [])])]"

definition fs_bad_metadata :: fsnode where
  "fs_bad_metadata =
     Dir True
       [(''node_modules'', Dir True
          [(''left-pad'', Dir True [(''package.json'', File (Json (JArr [])))]),
           (''tbssnch'', Dir True [(''package.json'', File (Json (JObj [(''version'', JNum ''2'')])))])])]"

definition fs_four_classes :: fsnode where
  "fs_four_classes =
     Dir True
       [(''app'', Dir True
          [(''package.json'', File (Json (JObj
             [(''name'', JStr ''app''),
              (''dependencies'', JObj [(''left-pad'', JStr ''^1.0.0'')]),
              (''devDependencies'', JObj [(''left-pad'', JStr ''^1.1.0'')]),
              (''peerDependencies'', JObj [(''left-pad'', JStr ''^1.2.0'')]),
              (''optionalDependencies'', JObj [(''left-pad'', JStr ''^1.3.0'')])])))])]"


definition fs_scoped :: fsnode where
  "fs_scoped =
     Dir True
       [(''proj'', Dir True
          [(''node_modules'', Dir True
             [(''@art-ws'', Dir True
                 [(''common'', Dir True
                     [(''package.json'', File (Json (JObj [(''version'', JStr ''2.0.28'')])))])]),
              (''README.md'', File NotJson)])])]"

definition fs_locked_scope :: fsnode where
  "fs_locked_scope =
     Dir True
       [(''proj'', Dir True
          [(''node_modules'', Dir True
             [(''@art-ws'', Dir False
                 [(''common'', Dir True
                     [(''package.json'', File (Json (JObj [(''version'', JStr ''2.0.28'')])))])])])])]"

definition fs_end_to_end :: fsnode where
  "fs_end_to_end =
     Dir True
       [(''home'', Dir True
          [(''package.json'', File (Json (JObj
              [(''name'', JStr ''demo''),
               (''dependencies'', JObj [(''left-pad'', JStr ''^1.0.0''), (''lodash'', JStr ''4'')])]))),
           (''node_modules'', Dir True
              [(''left-pad'', Dir True
                  [(''package.json'', File (Json (JObj [(''version'', JStr ''1.3.0'')])))]),
               (''lodash'', Dir True [])])])]"

definition fs_program_files :: fsnode where
  "fs_program_files =
     Dir True
       [(''Program Files'', Dir True
          [(''nodejs'', Dir True
             [(''node_modules'', Dir True
                [(''left-pad'', Dir True
                    [(''package.json'', File (Json (JObj [(''version'', JStr ''1.3.0'')])))])])])])]"

definition fs_git :: fsnode where
  "fs_git =
     Dir True
       [(''home'', Dir True
          [(''.git'', Dir True
              [(''node_modules'', Dir True [(''left-pad'', Dir True [])])]),
           (''build'', Dir True
              [(''package.json'', File (Json (JObj
                  [(''dependencies'', JObj [(''left-pad'', JStr ''^1.0.0'')])])))]),
           (''app'', Dir True
              [(''node_modules'', Dir True
                 [(''tbssnch'', Dir True
                    [(''package.json'', File (Json (JObj [(''version'', JStr ''1.0.2'')])))])])])])]"



definition fs_overlap :: fsnode where
  "fs_overlap =
     Dir True
       [(''home'', Dir True
          [(''Projects'', Dir True
             [(''app'', Dir True
                [(''node_modules'', Dir True
                   [(''foo'', Dir True
                       [(''package.json'', File (Json (JObj
                           [(''name'', JStr ''foo''),
                            (''dependencies'', JObj [(''left-pad'', JStr ''^1.0.0'')])])))])])])])])]"

section \<open>Properties of dictionaries\<close>

lemma keys_setitem: "keys (setitem k v d) = insert k (keys d)"
  by (induction d) (auto simp: keys_def)

lemma map_of_setitem: "map_of (setitem k v d) = (map_of d)(k \<mapsto> v)"
  by (induction d) (auto simp: fun_eq_iff)

lemma map_fst_setitem:
  "map fst (setitem k v d) = (if k \<in> keys d then map fst d else map fst d @ [k])"
  by (induction d) (auto simp: keys_def)

lemma distinct_setitem: "distinct (map fst d) \<Longrightarrow> distinct (map fst (setitem k v d))"
  by (simp add: map_fst_setitem keys_def)

lemma keys_Nil: "keys [] = {}"
  by (simp add: keys_def)

lemma keys_Cons: "keys (x # d) = insert (fst x) (keys d)"
  by (simp add: keys_def)

lemma dict_update_Nil: "dict_update d [] = d"
  by (simp add: dict_update_def)

lemma dict_update_Cons: "dict_update d ((k, v) # e) = dict_update (setitem k v d) e"
  by (simp add: dict_update_def)

lemma keys_dict_update: "keys (dict_update d e) = keys d \<union> keys e"
proof (induction e arbitrary: d)
  case Nil
  show ?case by (simp add: dict_update_Nil keys_Nil)
next
  case (Cons x e)
  obtain k v where x: "x = (k, v)" by (cases x)
  show ?case
    unfolding x dict_update_Cons Cons.IH keys_setitem keys_Cons by auto
qed

lemma distinct_dict_update:
  "distinct (map fst d) \<Longrightarrow> distinct (map fst (dict_update d e))"
proof (induction e arbitrary: d)
  case Nil
  then show ?case by (simp add: dict_update_Nil)
next
  case (Cons x e)
  obtain k v where x: "x = (k, v)" by (cases x)
  show ?case
    unfolding x dict_update_Cons by (rule Cons.IH) (rule distinct_setitem [OF Cons.prems])
qed



lemma entries_of_distinct:
  "distinct (map fst m) \<Longrightarrow> map_of m k = Some v \<Longrightarrow> filter (\<lambda>e. fst e = k) m = [(k, v)]"
proof (induction m)
  case Nil
  then show ?case by simp
next
  case (Cons x m)
  show ?case
  proof (cases "fst x = k")
    case True
    with Cons.prems have "x = (k, v)" by (cases x) simp
    moreover from Cons.prems True have "k \<notin> fst ` set m" by auto
    then have "filter (\<lambda>e. fst e = k) m = []"
      unfolding filter_empty_conv by (metis imageI)
    ultimately show ?thesis by simp
  next
    case False
    with Cons show ?thesis by simp
  qed
qed



section \<open>Merging partial results\<close>



section \<open>The directory classifier decides by name and permission only\<close>

text \<open>
  Claim C6. \<^verbatim>\<open>should_skip_directory\<close> answers skip exactly when the name of the directory
  begins with a dot and is neither \<^verbatim>\<open>.npm\<close> nor \<^verbatim>\<open>.node_modules\<close>, or the name is one of the
  twenty names of the deny-list, or the directory is not readable. The permission check
  is a value in every case: a path that does not exist is answered with skip.
\<close>

theorem should_skip_directory_iff:
  "should_skip_directory fs p \<longleftrightarrow>
     (startswith (path_name p) CHR ''.'' \<and> path_name p \<noteq> ''.npm''
        \<and> path_name p \<noteq> ''.node_modules'')
     \<or> path_name p \<in> set [''.git'', ''.svn'', ''.hg'', ''__pycache__'', ''venv'', ''env'',
           ''.env'', ''virtualenv'', ''.vscode'', ''.idea'', ''dist'', ''build'', ''target'',
           ''bin'', ''obj'', ''.cache'', ''Windows'', ''System32'', ''Program Files'',
           ''Applications'']
     \<or> (case fs_lookup fs p of
           None \<Rightarrow> True
         | Some (File c) \<Rightarrow> c = NoAccess
         | Some (Dir r es) \<Rightarrow> \<not> r)"
  unfolding should_skip_directory_def skip_dirs_def os_access_R_def
  by (simp split: option.splits fsnode.splits)

theorem should_skip_directory_iff_witness:
  "should_skip_directory fs_home [''home'', ''.git'']
   \<and> \<not> should_skip_directory fs_home [''home'', ''.npm'']
   \<and> should_skip_directory fs_home [''home'', ''locked'']
   \<and> \<not> should_skip_directory fs_home [''home'', ''src'']
   \<and> should_skip_directory fs_home [''home'', ''missing'']"
  using should_skip_directory_iff [of fs_home "[''home'', ''.git'']"]
    should_skip_directory_iff [of fs_home "[''home'', ''.npm'']"]
    should_skip_directory_iff [of fs_home "[''home'', ''locked'']"]
    should_skip_directory_iff [of fs_home "[''home'', ''src'']"]
    should_skip_directory_iff [of fs_home "[''home'', ''missing'']"]
  by (simp add: fs_home_def path_name_def startswith_def)

section \<open>The version lookup\<close>

lemma get_package_version_cases:
  "get_package_version fs p =
     (case fs_lookup fs (p @ [''package.json'']) of
        Some (File NotUtf8) \<Rightarrow> Inl UnicodeDecodeError
      | Some (File (Json (JObj members))) \<Rightarrow>
          Inr (case map_of (py_dict members) ''version'' of None \<Rightarrow> JStr ''unknown'' | Some v \<Rightarrow> v)
      | Some (File (Json _)) \<Rightarrow> Inl AttributeError
      | _ \<Rightarrow> Inr (JStr ''unknown''))"
  unfolding get_package_version_def dict_get_def
  by (simp split: option.splits fsnode.splits fcontent.splits json.splits)

text \<open>
  Claim C5. The version lookup is claimed to return a string in all cases and never to
  propagate a failure. A metadata file that holds valid JSON which is not an object,
  here the array \<^verbatim>\<open>[]\<close>, makes \<^verbatim>\<open>package_data.get\<close> raise AttributeError, which the
  handler of \<^verbatim>\<open>get_package_version\<close> does not name.
\<close>

theorem get_package_version_raises:
  "get_package_version fs_bad_metadata [''node_modules'', ''left-pad''] = Inl AttributeError"
  by (simp add: get_package_version_def fs_bad_metadata_def)

lemma get_package_version_not_a_string:
  "get_package_version fs_bad_metadata [''node_modules'', ''tbssnch''] = Inr (JNum ''2'')"
  by (simp add: get_package_version_def fs_bad_metadata_def py_dict_def dict_update_def dict_get_def)

section \<open>Properties of the dependency extraction\<close>

lemma distinct_py_dict: "distinct (map fst (py_dict members))"
  unfolding py_dict_def by (rule distinct_dict_update) simp

lemma keys_py_dict: "keys (py_dict members) = fst ` set members"
  unfolding py_dict_def by (simp add: keys_dict_update keys_Nil) (simp add: keys_def)

lemma add_dep_target:
  "pkg \<in> T \<Longrightarrow> add_dep T data pj s (pkg, v) found =
     setitem pkg \<lparr>dep_version = v, dependency_type = s, project = project_name data,
                  dep_path = pj\<rparr> found"
  by (simp add: add_dep_def)

lemma add_dep_other: "pkg \<notin> T \<Longrightarrow> add_dep T data pj s (pkg, v) found = found"
  by (simp add: add_dep_def)

lemma distinct_add_dep:
  "distinct (map fst found) \<Longrightarrow> distinct (map fst (add_dep T data pj s kv found))"
  by (cases kv) (simp add: add_dep_def distinct_setitem)

lemma keys_add_dep: "keys (add_dep T data pj s kv found) \<subseteq> keys found \<union> T"
  by (cases kv) (auto simp: add_dep_def keys_setitem)

lemma distinct_fold_add_dep:
  "distinct (map fst found) \<Longrightarrow> distinct (map fst (fold (add_dep T data pj s) kvs found))"
  by (induction kvs arbitrary: found) (simp_all add: distinct_add_dep)

lemma keys_fold_add_dep: "keys (fold (add_dep T data pj s) kvs found) \<subseteq> keys found \<union> T"
proof (induction kvs arbitrary: found)
  case Nil
  show ?case by simp
next
  case (Cons kv kvs)
  have "keys (fold (add_dep T data pj s) kvs (add_dep T data pj s kv found))
          \<subseteq> keys (add_dep T data pj s kv found) \<union> T"
    by (rule Cons.IH)
  with keys_add_dep [of T data pj s kv found] show ?case by auto
qed

lemma map_of_fold_add_dep:
  assumes "distinct (map fst kvs)"
  shows "map_of (fold (add_dep T data pj s) kvs found) pkg =
     (if pkg \<in> T then
        (case map_of kvs pkg of
           None \<Rightarrow> map_of found pkg
         | Some v \<Rightarrow> Some \<lparr>dep_version = v, dependency_type = s, project = project_name data,
                            dep_path = pj\<rparr>)
      else map_of found pkg)"
  using assms
proof (induction kvs arbitrary: found)
  case Nil
  show ?case by simp
next
  case (Cons kv kvs)
  obtain k v where kv: "kv = (k, v)" by (cases kv)
  from Cons.prems kv have nk: "map_of kvs k = None" and d: "distinct (map fst kvs)"
    by (simp_all add: map_of_eq_None_iff)
  show ?case
  proof (cases "k \<in> T")
    case True
    show ?thesis
      unfolding kv fold_simps add_dep_target [OF True] Cons.IH [OF d] map_of_setitem
      using nk True by (simp split: option.splits)
  next
    case False
    show ?thesis
      unfolding kv fold_simps add_dep_other [OF False] Cons.IH [OF d]
      using False by auto
  qed
qed



lemma scan_sections_keys:
  "scan_sections T data pj secs found = Inr found' \<Longrightarrow> keys found' \<subseteq> keys found \<union> T"
proof (induction secs arbitrary: found)
  case Nil
  then show ?case by simp
next
  case (Cons s secs)
  show ?case
  proof (cases "section_in s data")
    case (Inl e)
    with Cons.prems show ?thesis by simp
  next
    case (Inr b)
    show ?thesis
    proof (cases b)
      case False
      with Inr Cons show ?thesis by simp
    next
      case True
      with Inr Cons.prems obtain sec kvs where
        "scan_sections T data pj secs (fold (add_dep T data pj s) kvs found) = Inr found'"
        by (auto split: sum.splits)
      from Cons.IH [OF this] keys_fold_add_dep [of T data pj s kvs found]
      show ?thesis by auto
    qed
  qed
qed

text \<open>One section of an object manifest.\<close>

lemma scan_sections_step_obj:
  "scan_sections T (JObj members) pj (s # rest) found =
     (case map_of (py_dict members) s of
        None \<Rightarrow> scan_sections T (JObj members) pj rest found
      | Some (JObj sec) \<Rightarrow>
          scan_sections T (JObj members) pj rest
            (fold (add_dep T (JObj members) pj s) (py_dict sec) found)
      | Some _ \<Rightarrow> Inl AttributeError)"
proof (cases "map_of (py_dict members) s")
  case None
  then have "s \<notin> keys (py_dict members)"
    by (simp add: keys_def map_of_eq_None_iff)
  with None show ?thesis by simp
next
  case (Some x)
  then have "s \<in> keys (py_dict members)"
    unfolding keys_def by (metis map_of_eq_None_iff option.distinct(1))
  with Some show ?thesis
    by (cases x) (simp_all add: dict_get_def)
qed




lemma scan_package_json_keys:
  "scan_package_json T fs pj = Inr found \<Longrightarrow> keys found \<subseteq> T"
  unfolding scan_package_json_def
  by (auto split: option.splits fsnode.splits fcontent.splits dest!: scan_sections_keys
        simp: keys_Nil)

lemmas eval_dict = py_dict_def dict_update_def dict_get_def keys_def entries_for_def

text \<open>
  Claim C2, as stated: a manifest that declares a target identifier in each of the four
  dependency classes yields four references for it. The dictionary \<^verbatim>\<open>found_dependencies\<close>
  is keyed by the identifier, so the manifest below yields one.
\<close>

theorem four_classes_counterexample:
  "length (references_to ''left-pad''
      (scan_package_json {''left-pad''} fs_four_classes [''app'', ''package.json''])) \<noteq> 4"
  by (simp add: references_to_def scan_package_json_def fs_four_classes_def dep_sections_def
        add_dep_def eval_dict)

text \<open>
  Claim C2, amended. A manifest that is an object and declares the target identifier
  \<open>pkg\<close> in each of the four dependency classes yields exactly one reference for
  \<open>pkg\<close>: it is tagged \<^verbatim>\<open>optionalDependencies\<close>, the class scanned last, and carries the
  version declared there, the declared name of the project (or \<^verbatim>\<open>unknown\<close>) and the path
  of the manifest. In particular the scan raises nothing.
\<close>

theorem four_classes_one_reference:
  assumes manifest: "fs_lookup fs pj = Some (File (Json (JObj members)))"
    and s1: "map_of (py_dict members) ''dependencies'' = Some (JObj sec1)"
            "map_of (py_dict sec1) pkg = Some v1"
    and s2: "map_of (py_dict members) ''devDependencies'' = Some (JObj sec2)"
            "map_of (py_dict sec2) pkg = Some v2"
    and s3: "map_of (py_dict members) ''peerDependencies'' = Some (JObj sec3)"
            "map_of (py_dict sec3) pkg = Some v3"
    and s4: "map_of (py_dict members) ''optionalDependencies'' = Some (JObj sec4)"
            "map_of (py_dict sec4) pkg = Some v4"
    and target: "pkg \<in> T"
  shows "references_to pkg (scan_package_json T fs pj) =
           [(pkg, \<lparr>dep_version = v4, dependency_type = ''optionalDependencies'',
                   project = dict_get (py_dict members) ''name'' (JStr ''unknown''),
                   dep_path = pj\<rparr>)]"
proof -
  let ?add = "\<lambda>s sec. fold (add_dep T (JObj members) pj s) (py_dict sec)"
  let ?found = "?add ''optionalDependencies'' sec4 (?add ''peerDependencies'' sec3
                  (?add ''devDependencies'' sec2 (?add ''dependencies'' sec1 [])))"
  have run: "scan_package_json T fs pj = Inr ?found"
    unfolding scan_package_json_def dep_sections_def
    by (simp add: manifest scan_sections_step_obj s1(1) s2(1) s3(1) s4(1)
          del: scan_sections.simps(2))
  have "distinct (map fst ?found)"
    by (intro distinct_fold_add_dep) simp
  moreover have "map_of ?found pkg =
      Some \<lparr>dep_version = v4, dependency_type = ''optionalDependencies'',
            project = dict_get (py_dict members) ''name'' (JStr ''unknown''), dep_path = pj\<rparr>"
    by (simp add: map_of_fold_add_dep [OF distinct_py_dict] target s4(2))
  ultimately show ?thesis
    unfolding references_to_def run entries_for_def by (simp add: entries_of_distinct)
qed

theorem four_classes_one_reference_witness:
  "references_to ''left-pad''
      (scan_package_json {''left-pad''} fs_four_classes [''app'', ''package.json'']) =
     [(''left-pad'', \<lparr>dep_version = JStr ''^1.3.0'', dependency_type = ''optionalDependencies'',
                       project = JStr ''app'', dep_path = [''app'', ''package.json'']\<rparr>)]"
proof -
  let ?members = "[(''name'', JStr ''app''),
              (''dependencies'', JObj [(''left-pad'', JStr ''^1.0.0'')]),
              (''devDependencies'', JObj [(''left-pad'', JStr ''^1.1.0'')]),
              (''peerDependencies'', JObj [(''left-pad'', JStr ''^1.2.0'')]),
              (''optionalDependencies'', JObj [(''left-pad'', JStr ''^1.3.0'')])]"
  have m: "fs_lookup fs_four_classes [''app'', ''package.json''] = Some (File (Json (JObj ?members)))"
    by (simp add: fs_four_classes_def)
  have s1: "map_of (py_dict ?members) ''dependencies'' = Some (JObj [(''left-pad'', JStr ''^1.0.0'')])"
    and s2: "map_of (py_dict ?members) ''devDependencies'' = Some (JObj [(''left-pad'', JStr ''^1.1.0'')])"
    and s3: "map_of (py_dict ?members) ''peerDependencies'' = Some (JObj [(''left-pad'', JStr ''^1.2.0'')])"
    and s4: "map_of (py_dict ?members) ''optionalDependencies'' = Some (JObj [(''left-pad'', JStr ''^1.3.0'')])"
    by (simp_all add: eval_dict)
  have v: "map_of (py_dict [(''left-pad'', JStr ''^1.0.0'')]) ''left-pad'' = Some (JStr ''^1.0.0'')"
    "map_of (py_dict [(''left-pad'', JStr ''^1.1.0'')]) ''left-pad'' = Some (JStr ''^1.1.0'')"
    "map_of (py_dict [(''left-pad'', JStr ''^1.2.0'')]) ''left-pad'' = Some (JStr ''^1.2.0'')"
    "map_of (py_dict [(''left-pad'', JStr ''^1.3.0'')]) ''left-pad'' = Some (JStr ''^1.3.0'')"
    by (simp_all add: eval_dict)
  have t: "''left-pad'' \<in> {''left-pad''}" by simp
  from four_classes_one_reference [OF m s1 v(1) s2 v(2) s3 v(3) s4 v(4) t]
  show ?thesis by (simp add: eval_dict)
qed



section \<open>Properties of the store scanner\<close>

lemma set_setitem: "set (setitem k v d) \<subseteq> insert (k, v) (set d)"
  by (induction d) auto

lemma record_package_Inr:
  assumes "record_package fs nm k p found = Inr found'"
  shows "\<exists>rec. found' = setitem k rec found \<and> path rec = p"
  using assms unfolding record_package_def
  by (auto split: sum.splits)

lemma record_package_keys:
  assumes "record_package fs nm k p found = Inr found'"
  shows "keys found' = insert k (keys found)"
  using record_package_Inr [OF assms] by (auto simp: keys_setitem)

lemma record_package_set:
  assumes "record_package fs nm k p found = Inr found'" and "e \<in> set found'"
  shows "e \<in> set found \<or> (\<exists>rec. e = (k, rec) \<and> path rec = p)"
proof -
  from record_package_Inr [OF assms(1)] obtain rec
    where "found' = setitem k rec found" and "path rec = p" by blast
  with assms(2) set_setitem [of k rec found] show ?thesis by auto
qed

lemma scan_scope_sound:
  "scan_scope T fs nm sc cs f0 = Inr f \<Longrightarrow> e \<in> set f \<Longrightarrow>
     e \<in> set f0 \<or>
     (\<exists>n rec. e = (sc @ ''/'' @ n, rec) \<and> sc @ ''/'' @ n \<in> T \<and> path rec = nm @ [sc, n])"
proof (induction T fs nm sc cs f0 rule: scan_scope.induct)
  case (1 T fs nm scope found)
  then show ?case by simp
next
  case (2 T fs nm scope n c es found)
  then show ?case by simp
next
  case (3 T fs nm scope n r cs es found)
  show ?case
  proof (cases "scope @ ''/'' @ n \<in> T")
    case False
    with 3 show ?thesis by simp
  next
    case True
    with "3.prems"(1) obtain found' where
      rp: "record_package fs nm (scope @ ''/'' @ n) (nm @ [scope, n]) found = Inr found'"
      and rest: "scan_scope T fs nm scope es found' = Inr f"
      by (auto split: sum.splits)
    from "3.IH"(1) [OF refl True rp rest "3.prems"(2)] record_package_set [OF rp, of e] True
    show ?thesis by blast
  qed
qed

lemma scan_scope_keys_mono:
  "scan_scope T fs nm sc cs f0 = Inr f \<Longrightarrow> keys f0 \<subseteq> keys f"
proof (induction T fs nm sc cs f0 rule: scan_scope.induct)
  case (3 T fs nm scope n r cs es found)
  show ?case
  proof (cases "scope @ ''/'' @ n \<in> T")
    case False
    with 3 show ?thesis by simp
  next
    case True
    with "3.prems"(1) obtain found' where
      rp: "record_package fs nm (scope @ ''/'' @ n) (nm @ [scope, n]) found = Inr found'"
      and rest: "scan_scope T fs nm scope es found' = Inr f"
      by (auto split: sum.splits)
    from "3.IH"(1) [OF refl True rp rest] record_package_keys [OF rp]
    show ?thesis by blast
  qed
qed simp_all

lemma scan_scope_complete:
  "scan_scope T fs nm sc cs f0 = Inr f \<Longrightarrow> (n, Dir r ps) \<in> set cs \<Longrightarrow> sc @ ''/'' @ n \<in> T
     \<Longrightarrow> sc @ ''/'' @ n \<in> keys f"
proof (induction T fs nm sc cs f0 rule: scan_scope.induct)
  case (1 T fs nm scope found)
  then show ?case by simp
next
  case (2 T fs nm scope n' c es found)
  then show ?case by simp
next
  case (3 T fs nm scope n' r' cs' es found)
  show ?case
  proof (cases "scope @ ''/'' @ n' \<in> T")
    case False
    with 3 show ?thesis by auto
  next
    case True
    with "3.prems"(1) obtain found' where
      rp: "record_package fs nm (scope @ ''/'' @ n') (nm @ [scope, n']) found = Inr found'"
      and rest: "scan_scope T fs nm scope es found' = Inr f"
      by (auto split: sum.splits)
    show ?thesis
    proof (cases "n = n'")
      case True
      with record_package_keys [OF rp] scan_scope_keys_mono [OF rest] show ?thesis by auto
    next
      case False
      with "3.prems"(2) have "(n, Dir r ps) \<in> set es" by simp
      from "3.IH"(1) [OF refl True rp rest this "3.prems"(3)] show ?thesis .
    qed
  qed
qed

lemma scan_items_sound:
  "scan_items T fs nm es f0 = Inr f \<Longrightarrow> e \<in> set f \<Longrightarrow>
     e \<in> set f0 \<or>
     (\<exists>n rec. e = (n, rec) \<and> n \<in> T \<and> \<not> startswith n CHR ''@'' \<and> path rec = nm @ [n]) \<or>
     (\<exists>sc n rec c. e = (sc @ ''/'' @ n, rec) \<and> startswith sc CHR ''@'' \<and> (sc, c) \<in> set es
        \<and> sc @ ''/'' @ n \<in> T \<and> path rec = nm @ [sc, n])"
proof (induction T fs nm es f0 rule: scan_items.induct)
  case (1 T fs nm found)
  then show ?case by simp
next
  case (2 T fs nm n c es found)
  from "2.IH" [OF _ "2.prems"(2)] "2.prems"(1) show ?case
    by simp blast
next
  case (3 T fs nm n r cs es found)
  show ?case
  proof (cases "startswith n CHR ''@''")
    case scoped: True
    show ?thesis
    proof (cases r)
      case False
      with scoped "3.prems"(1) have "scan_items T fs nm es found = Inr f" by simp
      from "3.IH"(1) [OF scoped _ this "3.prems"(2)] False show ?thesis
        by simp blast
    next
      case True
      with scoped "3.prems"(1) obtain found' where
        sc: "scan_scope T fs nm n cs found = Inr found'"
        and rest: "scan_items T fs nm es found' = Inr f"
        by (auto split: sum.splits)
      from True have nr: "\<not> \<not> r" by simp
      have here: "(n, Dir r cs) \<in> set ((n, Dir r cs) # es)" by simp
      from "3.IH"(2) [OF scoped nr sc rest "3.prems"(2)]
      show ?thesis
      proof (elim disjE)
        assume "e \<in> set found'"
        from scan_scope_sound [OF sc this] scoped here show ?thesis by blast
      next
        assume "\<exists>n rec. e = (n, rec) \<and> n \<in> T \<and> \<not> startswith n CHR ''@'' \<and> path rec = nm @ [n]"
        then show ?thesis by blast
      next
        assume "\<exists>sc n rec c. e = (sc @ ''/'' @ n, rec) \<and> startswith sc CHR ''@'' \<and> (sc, c) \<in> set es
                  \<and> sc @ ''/'' @ n \<in> T \<and> path rec = nm @ [sc, n]"
        then obtain sc n' rec c where "e = (sc @ ''/'' @ n', rec)" "startswith sc CHR ''@''"
          "(sc, c) \<in> set ((n, Dir r cs) # es)" "sc @ ''/'' @ n' \<in> T" "path rec = nm @ [sc, n']"
          by auto
        then show ?thesis by blast
      qed
    qed
  next
    case plain: False
    show ?thesis
    proof (cases "n \<in> T")
      case False
      with plain "3.prems"(1) have "scan_items T fs nm es found = Inr f" by simp
      from "3.IH"(4) [OF plain False this "3.prems"(2)] show ?thesis
        by simp blast
    next
      case True
      with plain "3.prems"(1) obtain found' where
        rp: "record_package fs nm n (nm @ [n]) found = Inr found'"
        and rest: "scan_items T fs nm es found' = Inr f"
        by (auto split: sum.splits)
      from "3.IH"(3) [OF plain True rp rest "3.prems"(2)]
      show ?thesis
      proof (elim disjE)
        assume "e \<in> set found'"
        from record_package_set [OF rp this] True plain show ?thesis by blast
      next
        assume "\<exists>n rec. e = (n, rec) \<and> n \<in> T \<and> \<not> startswith n CHR ''@'' \<and> path rec = nm @ [n]"
        then show ?thesis by blast
      next
        assume "\<exists>sc n rec c. e = (sc @ ''/'' @ n, rec) \<and> startswith sc CHR ''@'' \<and> (sc, c) \<in> set es
                  \<and> sc @ ''/'' @ n \<in> T \<and> path rec = nm @ [sc, n]"
        then obtain sc n' rec c where "e = (sc @ ''/'' @ n', rec)" "startswith sc CHR ''@''"
          "(sc, c) \<in> set ((n, Dir r cs) # es)" "sc @ ''/'' @ n' \<in> T" "path rec = nm @ [sc, n']"
          by auto
        then show ?thesis by blast
      qed
    qed
  qed
qed

lemma scan_items_keys_mono:
  "scan_items T fs nm es f0 = Inr f \<Longrightarrow> keys f0 \<subseteq> keys f"
proof (induction T fs nm es f0 rule: scan_items.induct)
  case (3 T fs nm n r cs es found)
  show ?case
  proof (cases "startswith n CHR ''@''")
    case scoped: True
    show ?thesis
    proof (cases r)
      case False
      with scoped 3 show ?thesis by simp
    next
      case True
      with scoped "3.prems"(1) obtain found' where
        sc: "scan_scope T fs nm n cs found = Inr found'"
        and rest: "scan_items T fs nm es found' = Inr f"
        by (auto split: sum.splits)
      from True have nr: "\<not> \<not> r" by simp
      from "3.IH"(2) [OF scoped nr sc rest] scan_scope_keys_mono [OF sc]
      show ?thesis by blast
    qed
  next
    case plain: False
    show ?thesis
    proof (cases "n \<in> T")
      case False
      with plain 3 show ?thesis by simp
    next
      case True
      with plain "3.prems"(1) obtain found' where
        rp: "record_package fs nm n (nm @ [n]) found = Inr found'"
        and rest: "scan_items T fs nm es found' = Inr f"
        by (auto split: sum.splits)
      from "3.IH"(3) [OF plain True rp rest] record_package_keys [OF rp]
      show ?thesis by blast
    qed
  qed
qed simp_all

text \<open>
  The four ways one step of the loop over the store can go on, with the dictionary
  it goes on with.
\<close>

lemma scan_items_step:
  assumes "scan_items T fs nm (x # es) f0 = Inr f"
  shows "\<exists>f1. scan_items T fs nm es f1 = Inr f \<and> keys f0 \<subseteq> keys f1
     \<and> (\<forall>n r ps. x = (n, Dir r ps) \<and> \<not> startswith n CHR ''@'' \<and> n \<in> T \<longrightarrow> n \<in> keys f1)
     \<and> (\<forall>sc cs. x = (sc, Dir True cs) \<and> startswith sc CHR ''@'' \<longrightarrow>
          scan_scope T fs nm sc cs f0 = Inr f1)"
proof (cases x)
  case (Pair n c)
  show ?thesis
  proof (cases c)
    case (File fc)
    with Pair assms show ?thesis by auto
  next
    case (Dir r cs)
    show ?thesis
    proof (cases "startswith n CHR ''@''")
      case scoped: True
      show ?thesis
      proof (cases r)
        case False
        with scoped Pair Dir assms show ?thesis by auto
      next
        case True
        with scoped Pair Dir assms obtain found' where
          sc: "scan_scope T fs nm n cs f0 = Inr found'"
          and rest: "scan_items T fs nm es found' = Inr f"
          by (auto split: sum.splits)
        with scan_scope_keys_mono [OF sc] scoped Pair Dir show ?thesis by auto
      qed
    next
      case plain: False
      show ?thesis
      proof (cases "n \<in> T")
        case False
        with plain Pair Dir assms show ?thesis by auto
      next
        case True
        with plain Pair Dir assms obtain found' where
          rp: "record_package fs nm n (nm @ [n]) f0 = Inr found'"
          and rest: "scan_items T fs nm es found' = Inr f"
          by (auto split: sum.splits)
        with record_package_keys [OF rp] plain Pair Dir show ?thesis by auto
      qed
    qed
  qed
qed


lemma scan_items_complete_scoped:
  "scan_items T fs nm es f0 = Inr f \<Longrightarrow> (sc, Dir True cs) \<in> set es \<Longrightarrow> startswith sc CHR ''@''
     \<Longrightarrow> (n, Dir r ps) \<in> set cs \<Longrightarrow> sc @ ''/'' @ n \<in> T \<Longrightarrow> sc @ ''/'' @ n \<in> keys f"
proof (induction es arbitrary: f0)
  case Nil
  then show ?case by simp
next
  case (Cons x es)
  from scan_items_step [OF Cons.prems(1)] obtain f1 where
    rest: "scan_items T fs nm es f1 = Inr f"
    and here: "\<forall>sc cs. x = (sc, Dir True cs) \<and> startswith sc CHR ''@'' \<longrightarrow>
          scan_scope T fs nm sc cs f0 = Inr f1"
    by blast
  show ?case
  proof (cases "x = (sc, Dir True cs)")
    case True
    with here Cons.prems(3) have "scan_scope T fs nm sc cs f0 = Inr f1" by blast
    from scan_scope_complete [OF this Cons.prems(4,5)] scan_items_keys_mono [OF rest]
    show ?thesis by blast
  next
    case False
    with Cons.prems(2) have "(sc, Dir True cs) \<in> set es" by simp
    from Cons.IH [OF rest this Cons.prems(3,4,5)] show ?thesis .
  qed
qed

lemma combined_name_inject:
  "CHR ''/'' \<notin> set sc \<Longrightarrow> CHR ''/'' \<notin> set sc' \<Longrightarrow> sc @ ''/'' @ n = sc' @ ''/'' @ n'
     \<Longrightarrow> sc = sc' \<and> n = n'"
proof (induction sc arbitrary: sc')
  case Nil
  then show ?case by (cases sc') auto
next
  case (Cons x sc)
  then show ?case by (cases sc') auto
qed

lemma startswith_append: "startswith sc c \<Longrightarrow> startswith (sc @ t) c"
  by (cases sc) (simp_all add: startswith_def)

lemma scan_node_modules_items:
  "fs_lookup fs nm = Some (Dir True es) \<Longrightarrow>
     scan_node_modules T fs nm = scan_items T fs nm es []"
  by (simp add: scan_node_modules_def)

text \<open>
  Claim C3, as stated: a scoped entry is recorded exactly when its combined identifier
  is a target. Below, the scope directory holds the package directory of a target, but
  it cannot be listed: the inner handler of \<^verbatim>\<open>scan_node_modules\<close> passes over it and
  nothing is recorded.
\<close>

theorem locked_scope_counterexample:
  "''@art-ws/common'' \<in> {''@art-ws/common''}
   \<and> fs_lookup fs_locked_scope [''proj'', ''node_modules'', ''@art-ws'', ''common'', ''package.json'']
       = Some (File (Json (JObj [(''version'', JStr ''2.0.28'')])))
   \<and> scan_node_modules {''@art-ws/common''} fs_locked_scope [''proj'', ''node_modules''] = Inr []"
  by (simp add: fs_locked_scope_def scan_node_modules_def startswith_def)

text \<open>
  Claim C3, amended. Let the store be a readable directory whose entries have no
  \<^verbatim>\<open>/\<close> in their names, \<open>sc\<close> a readable scope directory in it (its name begins with
  \<^verbatim>\<open>@\<close>) and \<open>n\<close> a directory in the scope, and let the store scan return. Then every
  record made for the package directory \<open>sc/n\<close> is stored under the combined identifier
  (the scope name, a \<^verbatim>\<open>/\<close>, the child name), the scope name alone is no key of the
  result, and a record for the package directory is present exactly when the combined
  identifier is in the target set.
\<close>

theorem scoped_entry_combined_name:
  assumes store: "fs_lookup fs nm = Some (Dir True es)"
    and names: "\<forall>(s, c)\<in>set es. CHR ''/'' \<notin> set s"
    and scope: "(sc, Dir True cs) \<in> set es" "startswith sc CHR ''@''"
    and pkg: "(n, Dir r ps) \<in> set cs"
    and scan: "scan_node_modules T fs nm = Inr found"
  shows "(\<forall>k rec. (k, rec) \<in> set found \<and> path rec = nm @ [sc, n] \<longrightarrow> k = sc @ ''/'' @ n)
       \<and> sc \<notin> keys found
       \<and> ((\<exists>rec. (sc @ ''/'' @ n, rec) \<in> set found \<and> path rec = nm @ [sc, n])
            \<longleftrightarrow> sc @ ''/'' @ n \<in> T)"
proof -
  from scan store have items: "scan_items T fs nm es [] = Inr found"
    by (simp add: scan_node_modules_items)
  have sound: "(\<exists>n'. k = n' \<and> n' \<in> T \<and> \<not> startswith n' CHR ''@'' \<and> path rec = nm @ [n']) \<or>
     (\<exists>sc' n' c. k = sc' @ ''/'' @ n' \<and> startswith sc' CHR ''@'' \<and> (sc', c) \<in> set es
        \<and> sc' @ ''/'' @ n' \<in> T \<and> path rec = nm @ [sc', n'])"
    if "(k, rec) \<in> set found" for k rec
    using scan_items_sound [OF items that] by auto
  have slash: "CHR ''/'' \<notin> set s" if "(s, c) \<in> set es" for s c
    using names that by auto
  have a: "k = sc @ ''/'' @ n" if "(k, rec) \<in> set found" "path rec = nm @ [sc, n]" for k rec
    using sound [OF that(1)] that(2) by auto
  have b: "sc \<notin> keys found"
  proof
    assume "sc \<in> keys found"
    then obtain rec where "(sc, rec) \<in> set found" by (auto simp: keys_def)
    from sound [OF this] scope(2) slash [OF scope(1)] show False by auto
  qed
  have c: "\<exists>rec. (sc @ ''/'' @ n, rec) \<in> set found \<and> path rec = nm @ [sc, n]"
    if t: "sc @ ''/'' @ n \<in> T"
  proof -
    from scan_items_complete_scoped [OF items scope pkg t]
    obtain rec where rec: "(sc @ ''/'' @ n, rec) \<in> set found" by (auto simp: keys_def)
    from sound [OF rec] show ?thesis
    proof (elim disjE exE conjE)
      fix n' assume "sc @ ''/'' @ n = n'" "\<not> startswith n' CHR ''@''"
      with startswith_append [OF scope(2), of "''/'' @ n"] show ?thesis by simp
    next
      fix sc' n' c
      assume eq: "sc @ ''/'' @ n = sc' @ ''/'' @ n'" and c: "(sc', c) \<in> set es"
        and p: "path rec = nm @ [sc', n']"
      from combined_name_inject [OF slash [OF scope(1)] slash [OF c] eq] p rec
      show ?thesis by auto
    qed
  qed
  have d: "sc @ ''/'' @ n \<in> T" if "(sc @ ''/'' @ n, rec) \<in> set found" for rec
    using sound [OF that] by auto
  from a b c d show ?thesis by blast
qed

theorem scoped_entry_combined_name_witness:
  "scan_node_modules {''@art-ws/common'', ''@art-ws'', ''common''} fs_scoped [''proj'', ''node_modules'']
     = Inr [(''@art-ws/common'',
             \<lparr>version = JStr ''2.0.28'', path = [''proj'', ''node_modules'', ''@art-ws'', ''common''],
              parent_project = JStr ''proj''\<rparr>)]
   \<and> ''@art-ws'' \<notin> keys [(''@art-ws/common'',
             \<lparr>version = JStr ''2.0.28'', path = [''proj'', ''node_modules'', ''@art-ws'', ''common''],
              parent_project = JStr ''proj''\<rparr>)]
   \<and> ''@art-ws'' @ ''/'' @ ''common'' \<in> {''@art-ws/common'', ''@art-ws'', ''common''}"
proof -
  let ?cs = "[(''common'', Dir True
                [(''package.json'', File (Json (JObj [(''version'', JStr ''2.0.28'')])))])]"
  let ?es = "[(''@art-ws'', Dir True ?cs), (''README.md'', File NotJson)]"
  let ?found = "[(''@art-ws/common'',
             \<lparr>version = JStr ''2.0.28'', path = [''proj'', ''node_modules'', ''@art-ws'', ''common''],
              parent_project = JStr ''proj''\<rparr>)]"
  have store: "fs_lookup fs_scoped [''proj'', ''node_modules''] = Some (Dir True ?es)"
    by (simp add: fs_scoped_def)
  have names: "\<forall>(s, c)\<in>set ?es. CHR ''/'' \<notin> set s" by simp
  have scope: "(''@art-ws'', Dir True ?cs) \<in> set ?es" "startswith ''@art-ws'' CHR ''@''"
    by (simp_all add: startswith_def)
  have pkg: "(''common'', Dir True
                [(''package.json'', File (Json (JObj [(''version'', JStr ''2.0.28'')])))]) \<in> set ?cs"
    by simp
  have scan: "scan_node_modules {''@art-ws/common'', ''@art-ws'', ''common''} fs_scoped
                [''proj'', ''node_modules''] = Inr ?found"
    by (simp add: scan_node_modules_def fs_scoped_def startswith_def record_package_def
          get_package_version_def find_parent_project_def path_parent_def path_name_def eval_dict)
  from scoped_entry_combined_name [OF store names scope pkg scan] scan
  show ?thesis by simp
qed

section \<open>Properties of the tree walker\<close>

lemma set_dict_update: "set (dict_update d e) \<subseteq> set d \<union> set e"
proof (induction e arbitrary: d)
  case Nil
  show ?case by (simp add: dict_update_Nil)
next
  case (Cons x e)
  obtain k v where x: "x = (k, v)" by (cases x)
  from Cons.IH [of "setitem k v d"] set_setitem [of k v d]
  show ?case unfolding x dict_update_Cons by auto
qed

lemma scan_node_modules_keys:
  assumes "scan_node_modules T fs nm = Inr found"
  shows "keys found \<subseteq> T"
proof
  fix k assume "k \<in> keys found"
  then obtain rec where e: "(k, rec) \<in> set found" by (auto simp: keys_def)
  show "k \<in> T"
  proof (cases "fs_lookup fs nm")
    case None
    with assms e show ?thesis by (simp add: scan_node_modules_def)
  next
    case (Some nd)
    show ?thesis
    proof (cases nd)
      case (File c)
      with Some assms e show ?thesis by (simp add: scan_node_modules_def)
    next
      case (Dir r es)
      show ?thesis
      proof (cases r)
        case False
        with Some Dir assms e show ?thesis by (simp add: scan_node_modules_def)
      next
        case True
        with Some Dir assms have "scan_items T fs nm es [] = Inr found"
          by (simp add: scan_node_modules_def)
        from scan_items_sound [OF this e] show ?thesis by auto
      qed
    qed
  qed
qed

text \<open>What one execution of the loop body can do to the state.\<close>

lemma visit_cases:
  assumes "visit T fs p es s = (s', d)"
  obtains (skipped) "should_skip_directory fs p" "s' = s" "\<not> d"
  | (seen) "\<not> should_skip_directory fs p" "p \<in> scanned_dirs s" "s' = s" "d"
  | (store_raised) e where "\<not> should_skip_directory fs p" "p \<notin> scanned_dirs s"
      "path_name p = ''node_modules''" "scan_node_modules T fs p = Inl e"
      "s' = s\<lparr>scanned_dirs := insert p (scanned_dirs s), raised := Some e\<rparr>" "\<not> d"
  | (store) found where "\<not> should_skip_directory fs p" "p \<notin> scanned_dirs s"
      "path_name p = ''node_modules''" "scan_node_modules T fs p = Inr found"
      "s' = s\<lparr>scanned_dirs := insert p (scanned_dirs s),
               installed_packages := dict_update (installed_packages s) found\<rparr>" "\<not> d"
  | (manifest_raised) e where "\<not> should_skip_directory fs p" "p \<notin> scanned_dirs s"
      "path_name p \<noteq> ''node_modules''" "in_files ''package.json'' es"
      "scan_package_json T fs (p @ [''package.json'']) = Inl e"
      "s' = s\<lparr>scanned_dirs := insert p (scanned_dirs s), raised := Some e\<rparr>" "\<not> d"
  | (manifest) found where "\<not> should_skip_directory fs p" "p \<notin> scanned_dirs s"
      "path_name p \<noteq> ''node_modules''" "in_files ''package.json'' es"
      "scan_package_json T fs (p @ [''package.json'']) = Inr found"
      "s' = s\<lparr>scanned_dirs := insert p (scanned_dirs s),
               dependency_references := dict_update (dependency_references s) found\<rparr>"
      "d = (\<not> length (parts p) > 10)"
  | (plain) "\<not> should_skip_directory fs p" "p \<notin> scanned_dirs s"
      "path_name p \<noteq> ''node_modules''" "\<not> in_files ''package.json'' es"
      "s' = s\<lparr>scanned_dirs := insert p (scanned_dirs s)\<rparr>"
      "d = (\<not> length (parts p) > 10)"
  using assms unfolding visit_def Let_def
  by (auto split: if_splits sum.splits)





text \<open>A property of the state that every execution of the loop body keeps is kept by the walk.\<close>

lemma walk_preserves_aux:
  shows "\<forall>p es s s' d. visit T fs p es s = (s', d) \<longrightarrow> I s \<longrightarrow> I s'
           \<Longrightarrow> I s \<Longrightarrow> I (walk T fs p nd s)"
    and "\<forall>p es s s' d. visit T fs p es s = (s', d) \<longrightarrow> I s \<longrightarrow> I s'
           \<Longrightarrow> I s \<Longrightarrow> I (walk_dirs T fs p es s)"
proof (induction T fs p nd s and T fs p es s rule: walk_walk_dirs.induct)
  case (1 T fs p c s)
  then show ?case by simp
next
  case (2 T fs p r es s)
  show ?case
  proof (cases "raised s \<noteq> None \<or> \<not> r")
    case True
    with "2.prems" show ?thesis by simp
  next
    case False
    obtain s' d where v: "visit T fs p es s = (s', d)" by (cases "visit T fs p es s")
    from "2.prems" v have I': "I s'" by blast
    show ?thesis
    proof (cases "d \<and> raised s' = None")
      case True
      with "2.IH" [OF False v [symmetric] True "2.prems"(1) I'] False v show ?thesis by simp
    next
      case no: False
      with False v I' show ?thesis by auto
    qed
  qed
next
  case (3 T fs p s)
  then show ?case by simp
next
  case (4 T fs p n c es s)
  then show ?case by simp
qed

lemma walk_preserves:
  assumes "\<And>p es s s' d. visit T fs p es s = (s', d) \<Longrightarrow> I s \<Longrightarrow> I s'"
  shows "I s \<Longrightarrow> I (walk T fs p nd s)"
    and "I s \<Longrightarrow> I (walk_dirs T fs p es s)"
  using assms walk_preserves_aux [of T fs I] by blast+

section \<open>The keys of the result maps\<close>

lemma visit_reachable:
  assumes "visit T fs p es s = (s', d)"
    and "reachable T fs (installed_packages s, dependency_references s)"
  shows "reachable T fs (installed_packages s', dependency_references s')"
  using assms(1)
proof (cases rule: visit_cases)
  case (store found)
  with reachable.store [OF assms(2) store(4)] show ?thesis by simp
next
  case (manifest found)
  with reachable.manifest [OF assms(2) manifest(5)] show ?thesis by simp
qed (use assms(2) in simp_all)

lemma scan_directory_worker_reachable:
  "reachable T fs (installed_packages (scan_directory_worker T fs root_path scanned),
                   dependency_references (scan_directory_worker T fs root_path scanned))"
proof -
  let ?I = "\<lambda>s. reachable T fs (installed_packages s, dependency_references s)"
  let ?s0 = "\<lparr>installed_packages = [], dependency_references = [],
              scanned_dirs = scanned, raised = None\<rparr>"
  have s0: "?I ?s0" by (simp add: reachable.start)
  have "?I (walk T fs root_path nd ?s0)" for nd
    by (rule walk_preserves(1) [where I = ?I, OF _ s0]) (rule visit_reachable)
  with s0 show ?thesis
    by (simp add: scan_directory_worker_def Let_def split: option.splits)
qed

lemma run_workers_reachable:
  "reachable T fs (res_installed res, res_dependencies res)
     \<Longrightarrow> reachable T fs (res_installed (fst (run_workers T fs roots (res, scanned))),
                        res_dependencies (fst (run_workers T fs roots (res, scanned))))"
proof (induction roots arbitrary: res scanned)
  case Nil
  then show ?case by simp
next
  case (Cons root_path roots)
  let ?w = "scan_directory_worker T fs root_path scanned"
  have "reachable T fs (res_installed (merge_result res ?w), res_dependencies (merge_result res ?w))"
    unfolding merge_result_def
    using reachable.merge [OF Cons.prems scan_directory_worker_reachable [of T fs root_path scanned]]
    by simp
  from Cons.IH [OF this] show ?case by (simp add: Let_def)
qed

lemma scan_computer_reachable:
  "reachable T fs (res_installed (scan_computer T fs roots),
                   res_dependencies (scan_computer T fs roots))"
  unfolding scan_computer_def
  by (rule run_workers_reachable) (simp add: reachable.start)

lemma reachable_keys:
  "reachable T fs (inst, deps) \<Longrightarrow> keys inst \<subseteq> T \<and> keys deps \<subseteq> T"
proof (induction "(inst, deps)" arbitrary: inst deps rule: reachable.induct)
  case start
  show ?case by (simp add: keys_Nil)
next
  case (store inst deps p found)
  with scan_node_modules_keys [OF store(3)] show ?case
    by (auto simp: keys_dict_update)
next
  case (manifest inst deps p found)
  with scan_package_json_keys [OF manifest(3)] show ?case
    by (auto simp: keys_dict_update)
next
  case (merge inst deps inst' deps')
  then show ?case by (auto simp: keys_dict_update)
qed

lemmas eval_scan =
  scan_computer_def scan_directory_worker_def merge_result_def visit_def
  should_skip_directory_def skip_dirs_def os_access_R_def path_name_def path_parent_def
  parts_def startswith_def scan_node_modules_def record_package_def get_package_version_def
  find_parent_project_def scan_package_json_def dep_sections_def add_dep_def Let_def

lemma scan_end_to_end:
  "scan_computer {''left-pad''} fs_end_to_end [[''home'']] =
     \<lparr>res_installed =
        [(''left-pad'', \<lparr>version = JStr ''1.3.0'', path = [''home'', ''node_modules'', ''left-pad''],
                          parent_project = JStr ''demo''\<rparr>)],
      res_dependencies =
        [(''left-pad'', \<lparr>dep_version = JStr ''^1.0.0'', dependency_type = ''dependencies'',
                          project = JStr ''demo'', dep_path = [''home'', ''package.json'']\<rparr>)]\<rparr>"
  by (simp add: fs_end_to_end_def eval_scan eval_dict)

text \<open>
  Claim C4. Whatever sequence of store scans, manifest scans and merges builds a pair
  of result dictionaries, starting from the empty ones, every key of the two
  dictionaries is in the target set; in particular this holds of the dictionaries that
  \<^verbatim>\<open>scan_computer\<close> returns for any list of search paths.
\<close>

theorem keys_are_targets:
  "(reachable T fs (inst, deps) \<longrightarrow> keys inst \<subseteq> T \<and> keys deps \<subseteq> T)
   \<and> keys (res_installed (scan_computer T fs roots)) \<subseteq> T
   \<and> keys (res_dependencies (scan_computer T fs roots)) \<subseteq> T"
  using reachable_keys [of T fs inst deps]
    reachable_keys [OF scan_computer_reachable [of T fs roots]]
  by blast

theorem keys_are_targets_witness:
  "reachable {''left-pad''} fs_end_to_end
     ([(''left-pad'', \<lparr>version = JStr ''1.3.0'', path = [''home'', ''node_modules'', ''left-pad''],
                       parent_project = JStr ''demo''\<rparr>)],
      [(''left-pad'', \<lparr>dep_version = JStr ''^1.0.0'', dependency_type = ''dependencies'',
                       project = JStr ''demo'', dep_path = [''home'', ''package.json'']\<rparr>)])
   \<and> keys [(''left-pad'', \<lparr>version = JStr ''1.3.0'', path = [''home'', ''node_modules'', ''left-pad''],
                       parent_project = JStr ''demo''\<rparr>)] \<subseteq> {''left-pad''}
   \<and> keys [(''left-pad'', \<lparr>dep_version = JStr ''^1.0.0'', dependency_type = ''dependencies'',
                       project = JStr ''demo'', dep_path = [''home'', ''package.json'']\<rparr>)]
        \<subseteq> {''left-pad''}"
proof -
  let ?inst = "[(''left-pad'', \<lparr>version = JStr ''1.3.0'', path = [''home'', ''node_modules'', ''left-pad''],
                       parent_project = JStr ''demo''\<rparr>)]"
  let ?deps = "[(''left-pad'', \<lparr>dep_version = JStr ''^1.0.0'', dependency_type = ''dependencies'',
                       project = JStr ''demo'', dep_path = [''home'', ''package.json'']\<rparr>)]"
  have r: "reachable {''left-pad''} fs_end_to_end (?inst, ?deps)"
    using scan_computer_reachable [of "{''left-pad''}" fs_end_to_end "[[''home'']]"]
    by (simp add: scan_end_to_end)
  from keys_are_targets [of "{''left-pad''}" fs_end_to_end ?inst ?deps "[[''home'']]"] r
  show ?thesis by blast
qed

section \<open>Skipped directories are not entered\<close>

lemma unskipped_Nil: "unskipped fs p [] = (\<not> should_skip_directory fs p)"
  by (simp add: unskipped_def)

lemma unskipped_Cons:
  "unskipped fs p (n # ds) = (\<not> should_skip_directory fs p \<and> unskipped fs (p @ [n]) ds)"
proof -
  have "(\<forall>i\<le>Suc (length ds). \<not> should_skip_directory fs (p @ take i (n # ds))) =
        (\<not> should_skip_directory fs (p @ take 0 (n # ds)) \<and>
         (\<forall>i\<le>length ds. \<not> should_skip_directory fs (p @ take (Suc i) (n # ds))))"
    by (metis Suc_le_mono le0 not0_implies_Suc)
  then show ?thesis by (simp add: unskipped_def)
qed

lemma visit_scanned:
  assumes "visit T fs p es s = (s', d)"
  shows "scanned_dirs s' = scanned_dirs s
         \<or> (scanned_dirs s' = insert p (scanned_dirs s) \<and> p \<notin> scanned_dirs s
              \<and> \<not> should_skip_directory fs p)"
  using assms by (cases rule: visit_cases) auto

lemma visit_descend:
  assumes "visit T fs p es s = (s', d)" and "d"
  shows "\<not> should_skip_directory fs p"
  using assms by (cases rule: visit_cases) auto

text \<open>
  Every directory that a walk adds to \<^verbatim>\<open>scanned_dirs\<close> lies at or below the directory
  where the walk started, and no directory between the two is one the classifier skips.
\<close>

lemma walk_unskipped:
  shows "q \<in> scanned_dirs (walk T fs p nd s) \<Longrightarrow>
           q \<in> scanned_dirs s \<or> (\<exists>ds. q = p @ ds \<and> unskipped fs p ds)"
    and "q \<in> scanned_dirs (walk_dirs T fs p es s) \<Longrightarrow>
           q \<in> scanned_dirs s \<or>
           (\<exists>n ds. n \<in> fst ` set es \<and> q = p @ n # ds \<and> unskipped fs (p @ [n]) ds)"
proof (induction T fs p nd s and T fs p es s rule: walk_walk_dirs.induct)
  case (1 T fs p c s)
  then show ?case by simp
next
  case (2 T fs p r es s)
  show ?case
  proof (cases "raised s \<noteq> None \<or> \<not> r")
    case True
    with "2.prems" show ?thesis by simp
  next
    case False
    obtain s' d where v: "visit T fs p es s = (s', d)" by (cases "visit T fs p es s")
    have here: "q \<in> scanned_dirs s \<or> (\<exists>ds. q = p @ ds \<and> unskipped fs p ds)"
      if "q \<in> scanned_dirs s'"
      using visit_scanned [OF v] that by (auto simp: unskipped_Nil)
    show ?thesis
    proof (cases "d \<and> raised s' = None")
      case True
      with False v "2.prems" have "q \<in> scanned_dirs (walk_dirs T fs p es s')" by simp
      from "2.IH" [OF False v [symmetric] True this]
      show ?thesis
      proof
        assume "q \<in> scanned_dirs s'"
        then show ?thesis by (rule here)
      next
        assume "\<exists>n ds. n \<in> fst ` set es \<and> q = p @ n # ds \<and> unskipped fs (p @ [n]) ds"
        then obtain n ds where "q = p @ n # ds" "unskipped fs (p @ [n]) ds" by blast
        with visit_descend [OF v] True have "q = p @ (n # ds) \<and> unskipped fs p (n # ds)"
          by (simp add: unskipped_Cons)
        then show ?thesis by blast
      qed
    next
      case no: False
      with False v "2.prems" have "q \<in> scanned_dirs s'" by auto
      then show ?thesis by (rule here)
    qed
  qed
next
  case (3 T fs p s)
  then show ?case by simp
next
  case (4 T fs p n c es s)
  from "4.prems" have "q \<in> scanned_dirs (walk_dirs T fs p es (walk T fs (p @ [n]) c s))" by simp
  from "4.IH"(2) [OF this] show ?case
  proof
    assume "q \<in> scanned_dirs (walk T fs (p @ [n]) c s)"
    from "4.IH"(1) [OF this] show ?thesis by auto
  next
    assume "\<exists>m ds. m \<in> fst ` set es \<and> q = p @ m # ds \<and> unskipped fs (p @ [m]) ds"
    then show ?thesis by auto
  qed
qed






lemma scan_node_modules_sound:
  assumes "scan_node_modules T fs q = Inr found" and "e \<in> set found"
  shows "in_store q (snd e)"
proof (cases "fs_lookup fs q")
  case None
  with assms show ?thesis by (simp add: scan_node_modules_def)
next
  case (Some nd)
  show ?thesis
  proof (cases nd)
    case (File c)
    with Some assms show ?thesis by (simp add: scan_node_modules_def)
  next
    case (Dir r es)
    show ?thesis
    proof (cases r)
      case False
      with Some Dir assms show ?thesis by (simp add: scan_node_modules_def)
    next
      case True
      with Some Dir assms have "scan_items T fs q es [] = Inr found"
        by (simp add: scan_node_modules_def)
      from scan_items_sound [OF this assms(2)] show ?thesis
        unfolding in_store_def by auto
    qed
  qed
qed

lemma fold_add_dep_path:
  "e \<in> set (fold (add_dep T data pj s) kvs found) \<Longrightarrow> e \<in> set found \<or> dep_path (snd e) = pj"
proof (induction kvs arbitrary: found)
  case Nil
  then show ?case by simp
next
  case (Cons kv kvs)
  obtain k v where kv: "kv = (k, v)" by (cases kv)
  from Cons.prems have "e \<in> set (fold (add_dep T data pj s) kvs (add_dep T data pj s kv found))"
    by simp
  from Cons.IH [OF this] show ?case
  proof
    assume "e \<in> set (add_dep T data pj s kv found)"
    with set_setitem [of k "\<lparr>dep_version = v, dependency_type = s, project = project_name data,
          dep_path = pj\<rparr>" found] kv
    show ?thesis by (auto simp: add_dep_def split: if_splits)
  qed simp
qed

lemma scan_sections_path:
  "scan_sections T data pj secs found = Inr found' \<Longrightarrow> e \<in> set found'
     \<Longrightarrow> e \<in> set found \<or> dep_path (snd e) = pj"
proof (induction secs arbitrary: found)
  case Nil
  then show ?case by simp
next
  case (Cons s secs)
  show ?case
  proof (cases "section_in s data")
    case (Inl err)
    with Cons.prems show ?thesis by simp
  next
    case (Inr b)
    show ?thesis
    proof (cases b)
      case False
      with Inr Cons show ?thesis by simp
    next
      case True
      with Inr Cons.prems obtain sec kvs where
        "scan_sections T data pj secs (fold (add_dep T data pj s) kvs found) = Inr found'"
        by (auto split: sum.splits)
      from Cons.IH [OF this Cons.prems(2)] fold_add_dep_path [of e T data pj s kvs found]
      show ?thesis by blast
    qed
  qed
qed

lemma scan_package_json_path:
  assumes "scan_package_json T fs pj = Inr found" and "e \<in> set found"
  shows "dep_path (snd e) = pj"
proof -
  from assms(2) have "found \<noteq> []" by auto
  with assms(1) obtain data where "scan_sections T data pj dep_sections [] = Inr found"
    unfolding scan_package_json_def
    by (auto split: option.splits fsnode.splits fcontent.splits)
  from scan_sections_path [OF this assms(2)] show ?thesis by simp
qed

lemma visit_attributed:
  assumes v: "visit T fs p es s1 = (s', d)" and a: "attributed s s1"
  shows "attributed s s'"
  using v
proof (cases rule: visit_cases)
  case (store found)
  have new: "p \<in> scanned_dirs s' - scanned_dirs s"
    using store a by (auto simp: attributed_def)
  have "e \<in> set (installed_packages s) \<or> (\<exists>q\<in>scanned_dirs s' - scanned_dirs s. in_store q (snd e))"
    if "e \<in> set (installed_packages s')" for e
  proof -
    from that store set_dict_update [of "installed_packages s1" found]
    have "e \<in> set (installed_packages s1) \<or> e \<in> set found" by auto
    then show ?thesis
    proof
      assume "e \<in> set (installed_packages s1)"
      with a store show ?thesis by (fastforce simp: attributed_def)
    next
      assume "e \<in> set found"
      from scan_node_modules_sound [OF store(4) this] new show ?thesis by blast
    qed
  qed
  moreover have "e \<in> set (dependency_references s)
        \<or> (\<exists>q\<in>scanned_dirs s' - scanned_dirs s. dep_path (snd e) = q @ [''package.json''])"
    if "e \<in> set (dependency_references s')" for e
    using that a store by (fastforce simp: attributed_def)
  moreover have "scanned_dirs s \<subseteq> scanned_dirs s'"
    using a store by (auto simp: attributed_def)
  ultimately show ?thesis unfolding attributed_def by blast
next
  case (manifest found)
  have new: "p \<in> scanned_dirs s' - scanned_dirs s"
    using manifest a by (auto simp: attributed_def)
  have "e \<in> set (dependency_references s)
        \<or> (\<exists>q\<in>scanned_dirs s' - scanned_dirs s. dep_path (snd e) = q @ [''package.json''])"
    if "e \<in> set (dependency_references s')" for e
  proof -
    from that manifest set_dict_update [of "dependency_references s1" found]
    have "e \<in> set (dependency_references s1) \<or> e \<in> set found" by auto
    then show ?thesis
    proof
      assume "e \<in> set (dependency_references s1)"
      with a manifest show ?thesis by (fastforce simp: attributed_def)
    next
      assume "e \<in> set found"
      from scan_package_json_path [OF manifest(5) this] new show ?thesis by blast
    qed
  qed
  moreover have "e \<in> set (installed_packages s)
        \<or> (\<exists>q\<in>scanned_dirs s' - scanned_dirs s. in_store q (snd e))"
    if "e \<in> set (installed_packages s')" for e
    using that a manifest by (fastforce simp: attributed_def)
  moreover have "scanned_dirs s \<subseteq> scanned_dirs s'"
    using a manifest by (auto simp: attributed_def)
  ultimately show ?thesis unfolding attributed_def by blast
qed (use a in \<open>fastforce simp: attributed_def\<close>)+

lemma walk_attributed: "attributed s (walk T fs p nd s)"
proof -
  have step: "\<And>p es s1 s' d. visit T fs p es s1 = (s', d) \<Longrightarrow> attributed s s1 \<Longrightarrow> attributed s s'"
    by (rule visit_attributed)
  have s: "attributed s s" by (simp add: attributed_def)
  show ?thesis
    by (rule walk_preserves(1) [where I = "attributed s", OF step s])
qed

lemma skip_dirs_no_scope: "startswith n CHR ''@'' \<Longrightarrow> n \<notin> skip_dirs"
  by (auto simp: skip_dirs_def startswith_def)

lemma unskipped_names:
  "unskipped fs p ds \<Longrightarrow> i \<le> length ds \<Longrightarrow> path_name (p @ take i ds) \<notin> skip_dirs"
  by (auto simp: unskipped_def should_skip_directory_def)

lemma scan_directory_worker_walk:
  "scan_directory_worker T fs root scanned =
     (case fs_lookup fs root of
        None \<Rightarrow> \<lparr>installed_packages = [], dependency_references = [],
                 scanned_dirs = scanned, raised = None\<rparr>
      | Some nd \<Rightarrow> walk T fs root nd \<lparr>installed_packages = [], dependency_references = [],
                 scanned_dirs = scanned, raised = None\<rparr>)"
  by (simp add: scan_directory_worker_def Let_def)

lemma worker_scanned:
  assumes "q \<in> scanned_dirs (scan_directory_worker T fs root scanned)" and "q \<notin> scanned"
  shows "\<exists>ds. q = root @ ds \<and> unskipped fs root ds"
  using assms walk_unskipped(1) [of q T fs root]
  by (fastforce simp: scan_directory_worker_walk split: option.splits)

lemma worker_attributed:
  "attributed \<lparr>installed_packages = [], dependency_references = [],
                scanned_dirs = scanned, raised = None\<rparr>
     (scan_directory_worker T fs root scanned)"
proof (cases "fs_lookup fs root")
  case None
  then show ?thesis by (simp add: scan_directory_worker_walk attributed_def)
next
  case (Some nd)
  with walk_attributed [of "\<lparr>installed_packages = [], dependency_references = [],
                scanned_dirs = scanned, raised = None\<rparr>" T fs root nd]
  show ?thesis by (simp add: scan_directory_worker_walk)
qed

lemma worker_installed:
  assumes "e \<in> set (installed_packages (scan_directory_worker T fs root scanned))"
  shows "\<exists>q. q \<in> scanned_dirs (scan_directory_worker T fs root scanned) \<and> q \<notin> scanned
            \<and> in_store q (snd e)"
  using assms worker_attributed [of scanned T fs root]
  by (fastforce simp: attributed_def)

lemma worker_dependencies:
  assumes "e \<in> set (dependency_references (scan_directory_worker T fs root scanned))"
  shows "\<exists>q. q \<in> scanned_dirs (scan_directory_worker T fs root scanned) \<and> q \<notin> scanned
            \<and> dep_path (snd e) = q @ [''package.json'']"
  using assms worker_attributed [of scanned T fs root]
  by (fastforce simp: attributed_def)

text \<open>
  Claim C7, as stated: no record is ever produced for a package located anywhere inside
  a deny-listed directory, in any walk of any root. The classifier looks at the name of
  the directory that \<^verbatim>\<open>os.walk\<close> yields, never at the directories above the root of the
  walk: a root inside \<^verbatim>\<open>Program Files\<close>, as \<^verbatim>\<open>get_search_paths\<close> gives on Windows, is walked.
\<close>

theorem deny_listed_root_counterexample:
  "''Program Files'' \<in> skip_dirs
   \<and> installed_packages
       (scan_directory_worker {''left-pad''} fs_program_files [''Program Files'', ''nodejs''] {})
     = [(''left-pad'',
         \<lparr>version = JStr ''1.3.0'',
          path = [''Program Files'', ''nodejs'', ''node_modules'', ''left-pad''],
          parent_project = JStr ''nodejs''\<rparr>)]"
  by (simp add: fs_program_files_def eval_scan eval_dict)

text \<open>
  Claim C7, amended. In any walk of any root, from any set of directories visited
  before, a directory at or below the root whose name is in the deny-list is never
  descended into: every directory the walk processes, every package directory of an
  installed record and every manifest of a dependency reference it returns lies below
  the root, and no directory from the root down to it (the root included, the package
  directory or the manifest itself excluded) has a name of the deny-list.
\<close>

theorem deny_listed_not_descended:
  "(\<forall>q\<in>scanned_dirs (scan_directory_worker T fs root scanned) - scanned.
      \<exists>ds. q = root @ ds \<and> (\<forall>i\<le>length ds. path_name (root @ take i ds) \<notin> skip_dirs))
   \<and> (\<forall>e\<in>set (installed_packages (scan_directory_worker T fs root scanned)).
      \<exists>ds. path (snd e) = root @ ds
         \<and> (\<forall>i<length ds. path_name (root @ take i ds) \<notin> skip_dirs))
   \<and> (\<forall>e\<in>set (dependency_references (scan_directory_worker T fs root scanned)).
      \<exists>ds. dep_path (snd e) = root @ ds
         \<and> (\<forall>i<length ds. path_name (root @ take i ds) \<notin> skip_dirs))"
proof (intro conjI ballI)
  fix q assume "q \<in> scanned_dirs (scan_directory_worker T fs root scanned) - scanned"
  with worker_scanned [of q T fs root scanned]
  obtain ds where "q = root @ ds" "unskipped fs root ds" by blast
  with unskipped_names [of fs root ds]
  show "\<exists>ds. q = root @ ds \<and> (\<forall>i\<le>length ds. path_name (root @ take i ds) \<notin> skip_dirs)"
    by blast
next
  fix e assume "e \<in> set (installed_packages (scan_directory_worker T fs root scanned))"
  from worker_installed [OF this] obtain q where
    q: "q \<in> scanned_dirs (scan_directory_worker T fs root scanned)" "q \<notin> scanned"
    and st: "in_store q (snd e)" by blast
  from worker_scanned [OF q] obtain ds where ds: "q = root @ ds" "unskipped fs root ds" by blast
  from st show "\<exists>ds. path (snd e) = root @ ds
         \<and> (\<forall>i<length ds. path_name (root @ take i ds) \<notin> skip_dirs)"
    unfolding in_store_def
  proof (elim disjE exE conjE)
    fix n assume p: "path (snd e) = q @ [n]"
    have "path_name (root @ take i (ds @ [n])) \<notin> skip_dirs" if "i < length (ds @ [n])" for i
      using that unskipped_names [OF ds(2), of i] by simp
    with p ds(1) show ?thesis by (intro exI [of _ "ds @ [n]"]) simp
  next
    fix sc n assume sc: "startswith sc CHR ''@''" and p: "path (snd e) = q @ [sc, n]"
    have "path_name (root @ take i (ds @ [sc, n])) \<notin> skip_dirs" if "i < length (ds @ [sc, n])" for i
    proof (cases "i \<le> length ds")
      case True
      with unskipped_names [OF ds(2), of i] show ?thesis by simp
    next
      case False
      with that have "i = Suc (length ds)" by simp
      with skip_dirs_no_scope [OF sc] show ?thesis by (simp add: path_name_def)
    qed
    with p ds(1) show ?thesis by (intro exI [of _ "ds @ [sc, n]"]) simp
  qed
next
  fix e assume "e \<in> set (dependency_references (scan_directory_worker T fs root scanned))"
  from worker_dependencies [OF this] obtain q where
    q: "q \<in> scanned_dirs (scan_directory_worker T fs root scanned)" "q \<notin> scanned"
    and p: "dep_path (snd e) = q @ [''package.json'']" by blast
  from worker_scanned [OF q] obtain ds where ds: "q = root @ ds" "unskipped fs root ds" by blast
  have "path_name (root @ take i (ds @ [''package.json''])) \<notin> skip_dirs"
    if "i < length (ds @ [''package.json''])" for i
    using that unskipped_names [OF ds(2), of i] by simp
  with p ds(1) show "\<exists>ds. dep_path (snd e) = root @ ds
         \<and> (\<forall>i<length ds. path_name (root @ take i ds) \<notin> skip_dirs)"
    by (intro exI [of _ "ds @ [''package.json'']"]) simp
qed

lemma scan_fs_git:
  "scan_directory_worker {''left-pad'', ''tbssnch''} fs_git [''home''] {} =
     \<lparr>installed_packages =
        [(''tbssnch'', \<lparr>version = JStr ''1.0.2'',
                        path = [''home'', ''app'', ''node_modules'', ''tbssnch''],
                        parent_project = JStr ''app''\<rparr>)],
      dependency_references = [],
      scanned_dirs = {[''home''], [''home'', ''app''], [''home'', ''app'', ''node_modules'']},
      raised = None\<rparr>"
  by (simp add: fs_git_def eval_scan eval_dict insert_commute)

theorem deny_listed_not_descended_witness:
  "installed_packages (scan_directory_worker {''left-pad'', ''tbssnch''} fs_git [''home''] {})
     = [(''tbssnch'', \<lparr>version = JStr ''1.0.2'',
                        path = [''home'', ''app'', ''node_modules'', ''tbssnch''],
                        parent_project = JStr ''app''\<rparr>)]
   \<and> dependency_references (scan_directory_worker {''left-pad'', ''tbssnch''} fs_git [''home''] {})
     = []
   \<and> (\<exists>ds. [''home'', ''app'', ''node_modules'', ''tbssnch''] = [''home''] @ ds
         \<and> (\<forall>i<length ds. path_name ([''home''] @ take i ds) \<notin> skip_dirs))
   \<and> fs_lookup fs_git [''home'', ''.git'', ''node_modules'', ''left-pad''] = Some (Dir True [])
   \<and> fs_lookup fs_git [''home'', ''build'', ''package.json'']
       = Some (File (Json (JObj [(''dependencies'', JObj [(''left-pad'', JStr ''^1.0.0'')])])))"
  using deny_listed_not_descended [of "{''left-pad'', ''tbssnch''}" fs_git "[''home'']" "{}"]
  unfolding scan_fs_git
  by (simp add: fs_git_def)

section \<open>The depth bound\<close>

lemma wf_fs_child: "wf_fs (Dir r es) \<Longrightarrow> (n, c) \<in> set es \<Longrightarrow> wf_fs c"
  by auto














section \<open>Directories visited before are walked again\<close>

text \<open>A directory that is in \<^verbatim>\<open>scanned_dirs\<close> is not processed again, and the walk goes on below it.\<close>

lemma visit_seen:
  "p \<in> scanned_dirs s \<Longrightarrow>
     visit T fs p es s = (s, \<not> should_skip_directory fs p)"
  by (simp add: visit_def)

text \<open>
  Claim C9. The walker is claimed to end the branch at a directory that is already in
  the set of visited directories. The loop body executes \<^verbatim>\<open>continue\<close> there and leaves
  \<^verbatim>\<open>dirs\<close> as it is, unlike the two branches beside it, so \<^verbatim>\<open>os.walk\<close> goes on into the
  subdirectories. With the search paths \<^verbatim>\<open>/home\<close> and \<^verbatim>\<open>/home/Projects\<close> the second walk
  passes through the store that the first walk scanned and pruned, takes the package
  directory \<^verbatim>\<open>foo\<close> in it for a project and reads its manifest: the merged result holds a
  dependency reference that the scan of \<^verbatim>\<open>/home\<close> alone does not produce.
\<close>

theorem revisit_descends_into_store:
  "scan_computer {''left-pad''} fs_overlap [[''home'']] =
     \<lparr>res_installed = [], res_dependencies = []\<rparr>
   \<and> scan_computer {''left-pad''} fs_overlap [[''home''], [''home'', ''Projects'']] =
     \<lparr>res_installed = [],
      res_dependencies =
        [(''left-pad'',
          \<lparr>dep_version = JStr ''^1.0.0'', dependency_type = ''dependencies'',
           project = JStr ''foo'',
           dep_path = [''home'', ''Projects'', ''app'', ''node_modules'', ''foo'',
                       ''package.json'']\<rparr>)]\<rparr>"
  by (simp add: fs_overlap_def eval_scan eval_dict)

end
